theory Spec2Isabelle
  imports Complex_Main "HOL-Library.Log_Nat"
begin

section \<open>Data model\<close>

text \<open>
  The geometries handled by \<^verbatim>\<open>streamlit_app.py\<close> are shapely objects. A coordinate
  tuple is \<open>(x, y)\<close> or \<open>(x, y, z)\<close>; an ordinate is a finite binary64 value, embedded
  here in the rationals (every finite double is a rational number). Python's \<open>None\<close>
  geometry is \<open>None\<close> of \<open>geometry option\<close>.
\<close>

datatype coord = XY rat rat | XYZ rat rat rat

type_synonym ring = "coord list"

datatype polygon = Poly (exterior: ring) (interiors: "ring list")

datatype geometry =
    Point "coord option"
  | LineString "coord list"
  | Polygon polygon
  | MultiPoint "coord option list"
  | MultiLineString "coord list list"
  | MultiPolygon "polygon list"
  | GeometryCollection "geometry list"

datatype error = ValueError | IndexError

fun cx :: "coord \<Rightarrow> rat" where
  "cx (XY x y) = x"
| "cx (XYZ x y z) = x"

fun cy :: "coord \<Rightarrow> rat" where
  "cy (XY x y) = y"
| "cy (XYZ x y z) = y"

text \<open>A list comprehension whose body may raise: the first exception ends it.\<close>

fun map_result :: "('a \<Rightarrow> error + 'b) \<Rightarrow> 'a list \<Rightarrow> error + 'b list" where
  "map_result f [] = Inr []"
| "map_result f (x # xs) =
     (case f x of
        Inl e \<Rightarrow> Inl e
      | Inr y \<Rightarrow> (case map_result f xs of Inl e \<Rightarrow> Inl e | Inr ys \<Rightarrow> Inr (y # ys)))"

section \<open>Python's float formatting and parsing\<close>

text \<open>
  \<open>f"{x:.{precision}f}"\<close> writes the exact value of the double \<open>x\<close>, correctly rounded
  (ties to even) to \<open>precision\<close> fractional digits; \<open>float(...)\<close> reads a decimal
  string back as the nearest double (ties to even mantissa).
\<close>

definition round_half_even :: "rat \<Rightarrow> int" where
  "round_half_even q =
     (let f = \<lfloor>q\<rfloor>; r = q - of_int f
      in if r < 1 / 2 then f
         else if 1 / 2 < r then f + 1
         else if even f then f else f + 1)"

definition format_fixed :: "nat \<Rightarrow> rat \<Rightarrow> rat" where
  \<comment> \<open>the number denoted by the text \<open>f"{x:.{p}f}"\<close>\<close>
  "format_fixed p x = of_int (round_half_even (x * 10 ^ p)) / 10 ^ p"

definition ilog2 :: "rat \<Rightarrow> int" where
  \<comment> \<open>the binary exponent \<open>e\<close> of a non-zero \<open>q\<close>: \<open>2\<^sup>e \<le> |q| < 2\<^sup>e\<^sup>+\<^sup>1\<close>\<close>
  "ilog2 q =
     (let d = bitlen (fst (quotient_of \<bar>q\<bar>)) - bitlen (snd (quotient_of \<bar>q\<bar>))
      in if 2 powi d \<le> \<bar>q\<bar> then d else d - 1)"

definition float_quantum :: "rat \<Rightarrow> int" where
  \<comment> \<open>exponent of the spacing of binary64 around \<open>q\<close>: 53 significant bits, and
      \<open>2\<^sup>-\<^sup>1\<^sup>0\<^sup>7\<^sup>4\<close> in the subnormal range\<close>
  "float_quantum q = max (ilog2 q - 52) (- 1074)"

definition float_of_rat :: "rat \<Rightarrow> rat" where
  \<comment> \<open>\<open>float(s)\<close> for a decimal text \<open>s\<close> of value \<open>q\<close>. The text parsed by
      \<open>round_coords\<close> is the rounding of a finite double, so its magnitude does not
      exceed the largest double (an integer) and the overflow to \<open>inf\<close> does not arise.\<close>
  "float_of_rat q =
     (if q = 0 then 0
      else of_int (round_half_even (q / 2 powi float_quantum q)) * 2 powi float_quantum q)"

definition round_ordinate :: "int \<Rightarrow> rat \<Rightarrow> error + rat" where
  \<comment> \<open>\<open>float(f"{x:.{precision}f}")\<close>: the format specification has no precision when
      \<open>precision\<close> is negative ("Format specifier missing precision") and one above
      \<open>INT_MAX\<close> is refused ("precision too big"), both with \<open>ValueError\<close>\<close>
  "round_ordinate precision x =
     (if precision < 0 \<or> 2147483647 < precision then Inl ValueError
      else Inr (float_of_rat (format_fixed (nat precision) x)))"

section \<open>round_coordinates\<close>

fun round_coords :: "int \<Rightarrow> coord \<Rightarrow> error + coord" where
  "round_coords precision (XY x y) =
     (case round_ordinate precision x of
        Inl e \<Rightarrow> Inl e
      | Inr x_rounded \<Rightarrow>
          (case round_ordinate precision y of
             Inl e \<Rightarrow> Inl e
           | Inr y_rounded \<Rightarrow> Inr (XY x_rounded y_rounded)))"
| "round_coords precision (XYZ x y z) =
     (case round_ordinate precision x of
        Inl e \<Rightarrow> Inl e
      | Inr x_rounded \<Rightarrow>
          (case round_ordinate precision y of
             Inl e \<Rightarrow> Inl e
           | Inr y_rounded \<Rightarrow>
               (case round_ordinate precision z of
                  Inl e \<Rightarrow> Inl e
                | Inr z_rounded \<Rightarrow> Inr (XYZ x_rounded y_rounded z_rounded))))"

text \<open>
  Modelled from the spec: \<open>shapely.ops.transform\<close> is not part of the source. The spec
  has it descend the geometry tree recursively and rewrite each coordinate tuple,
  keeping variant and nesting; \<open>transform_point\<close>, \<open>transform_polygon\<close>, \<open>transform\<close> and
  \<open>transform_parts\<close> are that descent, stopping at the first exception of \<open>func\<close>.
  (Called with the coordinate sequences first, \<open>round_coords\<close> raises \<open>TypeError\<close> on
  formatting a tuple, and \<open>transform\<close> then applies it to one coordinate tuple at a time;
  an empty geometry is returned as it is, which is what mapping over no coordinates
  gives. Rings are closed in shapely, so no coordinate is appended on rebuilding one.)
\<close>

fun transform_point :: "(coord \<Rightarrow> error + coord) \<Rightarrow> coord option \<Rightarrow> error + coord option" where
  "transform_point func None = Inr None"
| "transform_point func (Some c) = (case func c of Inl e \<Rightarrow> Inl e | Inr c' \<Rightarrow> Inr (Some c'))"

fun transform_polygon :: "(coord \<Rightarrow> error + coord) \<Rightarrow> polygon \<Rightarrow> error + polygon" where
  "transform_polygon func (Poly shell holes) =
     (case map_result func shell of
        Inl e \<Rightarrow> Inl e
      | Inr shell' \<Rightarrow>
          (case map_result (map_result func) holes of
             Inl e \<Rightarrow> Inl e
           | Inr holes' \<Rightarrow> Inr (Poly shell' holes')))"

fun transform :: "(coord \<Rightarrow> error + coord) \<Rightarrow> geometry \<Rightarrow> error + geometry"
  and transform_parts :: "(coord \<Rightarrow> error + coord) \<Rightarrow> geometry list \<Rightarrow> error + geometry list"
  where
  "transform func (Point c) =
     (case transform_point func c of Inl e \<Rightarrow> Inl e | Inr c' \<Rightarrow> Inr (Point c'))"
| "transform func (LineString cs) =
     (case map_result func cs of Inl e \<Rightarrow> Inl e | Inr cs' \<Rightarrow> Inr (LineString cs'))"
| "transform func (Polygon p) =
     (case transform_polygon func p of Inl e \<Rightarrow> Inl e | Inr p' \<Rightarrow> Inr (Polygon p'))"
| "transform func (MultiPoint ps) =
     (case map_result (transform_point func) ps of
        Inl e \<Rightarrow> Inl e | Inr ps' \<Rightarrow> Inr (MultiPoint ps'))"
| "transform func (MultiLineString ls) =
     (case map_result (map_result func) ls of
        Inl e \<Rightarrow> Inl e | Inr ls' \<Rightarrow> Inr (MultiLineString ls'))"
| "transform func (MultiPolygon ps) =
     (case map_result (transform_polygon func) ps of
        Inl e \<Rightarrow> Inl e | Inr ps' \<Rightarrow> Inr (MultiPolygon ps'))"
| "transform func (GeometryCollection gs) =
     (case transform_parts func gs of
        Inl e \<Rightarrow> Inl e | Inr gs' \<Rightarrow> Inr (GeometryCollection gs'))"
| "transform_parts func [] = Inr []"
| "transform_parts func (g # gs) =
     (case transform func g of
        Inl e \<Rightarrow> Inl e
      | Inr g' \<Rightarrow>
          (case transform_parts func gs of Inl e \<Rightarrow> Inl e | Inr gs' \<Rightarrow> Inr (g' # gs')))"

definition round_coordinates :: "geometry option \<Rightarrow> int \<Rightarrow> error + geometry option" where
  "round_coordinates geom precision =
     (case geom of
        None \<Rightarrow> Inr None
      | Some g \<Rightarrow>
          (case transform (round_coords precision) g of
             Inl e \<Rightarrow> Inl e
           | Inr g' \<Rightarrow> Inr (Some g')))"



section \<open>Ring orientation\<close>

text \<open>
  Modelled from the spec: shapely's signed area is not part of the source. It is the
  shoelace formula over consecutive coordinate pairs, ignoring z, halved; its sign is
  the winding (counterclockwise when positive). It is undefined for a ring without a
  pair of consecutive coordinates, where the computation raises (\<open>IndexError\<close>). The
  arithmetic is exact here.
\<close>

fun shoelace :: "ring \<Rightarrow> rat" where
  "shoelace (p # q # ps) = (cx p * cy q - cx q * cy p) + shoelace (q # ps)"
| "shoelace ps = 0"

definition signed_area :: "ring \<Rightarrow> error + rat" where
  "signed_area r = (if length r < 2 then Inl IndexError else Inr (shoelace r / 2))"

text \<open>
  Modelled from the spec: \<open>shapely.geometry.polygon.orient\<close> (called with \<open>sign=1.0\<close>) is
  not part of the source. It reverses the exterior ring when its signed area indicates
  clockwise winding, and reverses a hole when its signed area is positive, so that the
  exterior comes out counterclockwise and the holes clockwise.
\<close>

definition orient_hole :: "ring \<Rightarrow> error + ring" where
  "orient_hole r =
     (case signed_area r of Inl e \<Rightarrow> Inl e | Inr a \<Rightarrow> Inr (if a \<le> 0 then r else rev r))"

fun orient :: "polygon \<Rightarrow> error + polygon" where
  "orient (Poly ring holes) =
     (case signed_area ring of
        Inl e \<Rightarrow> Inl e
      | Inr a \<Rightarrow>
          (case map_result orient_hole holes of
             Inl e \<Rightarrow> Inl e
           | Inr holes' \<Rightarrow> Inr (Poly (if 0 \<le> a then ring else rev ring) holes')))"

text \<open>
  Modelled from the spec: \<open>shapely.is_ccw\<close> is not part of the source. The winding of a
  ring is the sign of its signed area; a ring without one is not counterclockwise.
\<close>

definition is_ccw :: "ring \<Rightarrow> bool" where
  "is_ccw r = (case signed_area r of Inl e \<Rightarrow> False | Inr a \<Rightarrow> 0 < a)"

text \<open>
  Modelled from the spec: the \<open>area\<close> property of a shapely polygon is not part of the
  source. It is the unsigned area, the exterior's less the holes'.
\<close>

definition area :: "polygon \<Rightarrow> rat" where
  "area p = \<bar>shoelace (exterior p)\<bar> / 2 - (\<Sum>h\<leftarrow>interiors p. \<bar>shoelace h\<bar> / 2)"

text \<open>
  Modelled from the spec: the \<open>is_empty\<close> property of a shapely geometry is not part of
  the source. A geometry is empty when it holds no coordinate.
\<close>

definition polygon_is_empty :: "polygon \<Rightarrow> bool" where
  "polygon_is_empty p = (exterior p = [])"

fun is_empty :: "geometry \<Rightarrow> bool" where
  "is_empty (Point c) = (c = None)"
| "is_empty (LineString cs) = (cs = [])"
| "is_empty (Polygon p) = polygon_is_empty p"
| "is_empty (MultiPoint ps) = list_all (\<lambda>c. c = None) ps"
| "is_empty (MultiLineString ls) = list_all (\<lambda>cs. cs = []) ls"
| "is_empty (MultiPolygon ps) = list_all polygon_is_empty ps"
| "is_empty (GeometryCollection gs) = list_all is_empty gs"

section \<open>fix_cw_to_ccw\<close>

text \<open>The body of the \<open>try\<close> block: \<open>Inl\<close> is an exception raised inside it.\<close>

definition fix_cw_to_ccw_try :: "geometry option \<Rightarrow> error + geometry option" where
  "fix_cw_to_ccw_try geom =
     (case geom of
        None \<Rightarrow> Inr geom
      | Some g \<Rightarrow>
          if is_empty g then Inr geom
          else (case g of
                  Polygon p \<Rightarrow>
                    (case orient p of Inl e \<Rightarrow> Inl e | Inr p' \<Rightarrow> Inr (Some (Polygon p')))
                | MultiPolygon geoms \<Rightarrow>
                    (case map_result orient geoms of
                       Inl e \<Rightarrow> Inl e
                     | Inr fixed_polygons \<Rightarrow> Inr (Some (MultiPolygon fixed_polygons)))
                | _ \<Rightarrow> Inr geom))"

fun error_text :: "error \<Rightarrow> string" where
  "error_text ValueError = ''ValueError''"
| "error_text IndexError = ''IndexError''"

text \<open>
  The function returns the geometry and the messages it passed to \<open>st.error\<close>; no
  exception leaves it.
\<close>

definition fix_cw_to_ccw :: "geometry option \<Rightarrow> geometry option \<times> string list" where
  "fix_cw_to_ccw geom =
     (case fix_cw_to_ccw_try geom of
        Inr fixed \<Rightarrow> (fixed, [])
      | Inl e \<Rightarrow> (geom, [''Error fixing counterclockwise orientation: '' @ error_text e]))"

section \<open>check_orientation_stats\<close>

record stats =
  ccw :: nat
  cw :: nat
  other :: nat

text \<open>
  Python's \<open>max(xs, key=...)\<close>: \<open>ValueError\<close> on an empty sequence, else the first
  element whose key no later element exceeds.
\<close>

fun max_loop :: "('a \<Rightarrow> rat) \<Rightarrow> 'a \<Rightarrow> 'a list \<Rightarrow> 'a" where
  "max_loop key best [] = best"
| "max_loop key best (x # xs) = max_loop key (if key best < key x then x else best) xs"

definition py_max :: "('a \<Rightarrow> rat) \<Rightarrow> 'a list \<Rightarrow> error + 'a" where
  "py_max key xs = (case xs of [] \<Rightarrow> Inl ValueError | x # rest \<Rightarrow> Inr (max_loop key x rest))"

text \<open>One iteration of the loop over \<open>gdf["geometry"]\<close>.\<close>

fun stats_step :: "stats \<Rightarrow> geometry option \<Rightarrow> error + stats" where
  "stats_step s (Some (Polygon p)) =
     (if is_ccw (exterior p) then Inr (s\<lparr>ccw := ccw s + 1\<rparr>) else Inr (s\<lparr>cw := cw s + 1\<rparr>))"
| "stats_step s (Some (MultiPolygon geoms)) =
     (case py_max area geoms of
        Inl e \<Rightarrow> Inl e
      | Inr largest_poly \<Rightarrow>
          if is_ccw (exterior largest_poly) then Inr (s\<lparr>ccw := ccw s + 1\<rparr>)
          else Inr (s\<lparr>cw := cw s + 1\<rparr>))"
| "stats_step s geom = Inr (s\<lparr>other := other s + 1\<rparr>)"

fun stats_loop :: "stats \<Rightarrow> geometry option list \<Rightarrow> error + stats" where
  "stats_loop s [] = Inr s"
| "stats_loop s (geom # rest) =
     (case stats_step s geom of Inl e \<Rightarrow> Inl e | Inr s' \<Rightarrow> stats_loop s' rest)"

definition check_orientation_stats :: "geometry option list \<Rightarrow> error + stats" where
  "check_orientation_stats gdf = stats_loop \<lparr>ccw = 0, cw = 0, other = 0\<rparr> gdf"

section \<open>Observations on geometries\<close>

text \<open>
  What \<open>round_ordinate\<close>, \<open>round_coords\<close> and \<open>transform\<close> compute when nothing raises,
  as plain functions; then the rings, coordinates and variant of a geometry, and the
  predicates the properties below are stated with.
\<close>

definition rounded :: "int \<Rightarrow> rat \<Rightarrow> rat" where
  "rounded precision x = float_of_rat (format_fixed (nat precision) x)"

fun rounded_coord :: "int \<Rightarrow> coord \<Rightarrow> coord" where
  "rounded_coord precision (XY x y) = XY (rounded precision x) (rounded precision y)"
| "rounded_coord precision (XYZ x y z) =
     XYZ (rounded precision x) (rounded precision y) (rounded precision z)"

fun map_polygon :: "(coord \<Rightarrow> coord) \<Rightarrow> polygon \<Rightarrow> polygon" where
  "map_polygon f (Poly shell holes) = Poly (map f shell) (map (map f) holes)"

fun map_geometry :: "(coord \<Rightarrow> coord) \<Rightarrow> geometry \<Rightarrow> geometry" where
  "map_geometry f (Point c) = Point (map_option f c)"
| "map_geometry f (LineString cs) = LineString (map f cs)"
| "map_geometry f (Polygon p) = Polygon (map_polygon f p)"
| "map_geometry f (MultiPoint ps) = MultiPoint (map (map_option f) ps)"
| "map_geometry f (MultiLineString ls) = MultiLineString (map (map f) ls)"
| "map_geometry f (MultiPolygon ps) = MultiPolygon (map (map_polygon f) ps)"
| "map_geometry f (GeometryCollection gs) = GeometryCollection (map (map_geometry f) gs)"




fun geom_type :: "geometry \<Rightarrow> string" where
  "geom_type (Point c) = ''Point''"
| "geom_type (LineString cs) = ''LineString''"
| "geom_type (Polygon p) = ''Polygon''"
| "geom_type (MultiPoint ps) = ''MultiPoint''"
| "geom_type (MultiLineString ls) = ''MultiLineString''"
| "geom_type (MultiPolygon ps) = ''MultiPolygon''"
| "geom_type (GeometryCollection gs) = ''GeometryCollection''"





fun polygonal :: "geometry option \<Rightarrow> bool" where
  "polygonal (Some (Polygon p)) = True"
| "polygonal (Some (MultiPolygon ps)) = True"
| "polygonal geom = False"

definition auditable :: "geometry option \<Rightarrow> bool" where
  "auditable geom = (case geom of None \<Rightarrow> True | Some g \<Rightarrow> polygonal geom \<longrightarrow> \<not> is_empty g)"

fun polygons_of :: "geometry \<Rightarrow> polygon list" where
  "polygons_of (Polygon p) = [p]"
| "polygons_of (MultiPolygon ps) = ps"
| "polygons_of g = []"

definition nondegenerate :: "polygon \<Rightarrow> bool" where
  "nondegenerate p =
     ((case signed_area (exterior p) of Inl e \<Rightarrow> False | Inr a \<Rightarrow> a \<noteq> 0)
      \<and> list_all (\<lambda>h. \<not> isl (signed_area h)) (interiors p))"

section \<open>Properties\<close>

lemma map_result_total:
  "(\<And>x. x \<in> set xs \<Longrightarrow> f x = Inr (g x)) \<Longrightarrow> map_result f xs = Inr (map g xs)"
  by (induction xs) simp_all

lemma map_result_length:
  "map_result f xs = Inr ys \<Longrightarrow> length ys = length xs"
  by (induction xs arbitrary: ys) (auto split: sum.splits)

lemma round_ordinate_ok:
  "0 \<le> precision \<Longrightarrow> precision \<le> 2147483647 \<Longrightarrow>
   round_ordinate precision x = Inr (rounded precision x)"
  by (simp add: round_ordinate_def rounded_def)

lemma round_coords_ok:
  "0 \<le> precision \<Longrightarrow> precision \<le> 2147483647 \<Longrightarrow>
   round_coords precision c = Inr (rounded_coord precision c)"
  by (cases c) (simp_all add: round_ordinate_ok)

lemma transform_point_total:
  "(\<And>c. func c = Inr (f c)) \<Longrightarrow> transform_point func c = Inr (map_option f c)"
  by (cases c) simp_all

lemma transform_polygon_total:
  "(\<And>c. func c = Inr (f c)) \<Longrightarrow> transform_polygon func p = Inr (map_polygon f p)"
  by (cases p) (simp add: map_result_total [where g = f] map_result_total [where g = "map f"])

lemma transform_total:
  "(\<And>c. func c = Inr (f c)) \<Longrightarrow> transform func g = Inr (map_geometry f g)"
  "(\<And>c. func c = Inr (f c)) \<Longrightarrow> transform_parts func gs = Inr (map (map_geometry f) gs)"
proof (induction func g and func gs rule: transform_transform_parts.induct)
qed (simp_all add: transform_point_total [where f = f] transform_polygon_total [where f = f]
      map_result_total [where g = f] map_result_total [where g = "map f"]
      map_result_total [where g = "map_option f"] map_result_total [where g = "map_polygon f"])

lemma round_coordinates_ok:
  "0 \<le> precision \<Longrightarrow> precision \<le> 2147483647 \<Longrightarrow>
   round_coordinates geom precision =
     Inr (map_option (map_geometry (rounded_coord precision)) geom)"
  by (cases geom) (simp_all add: round_coordinates_def transform_total(1) [where f = "rounded_coord precision"] round_coords_ok)

subsection \<open>fix_cw_to_ccw on a GeometryCollection\<close>



subsection \<open>Failure inside fix_cw_to_ccw\<close>



subsection \<open>Precision outside the slider range\<close>




subsection \<open>Ring closure under rounding\<close>







subsection \<open>Variant, vertex count and ring count\<close>


lemma length_concat_map_map: "length (concat (map (map f) xss)) = length (concat xss)"
  by (induction xss) simp_all














subsection \<open>Classification of a MultiPolygon\<close>

lemma max_loop_mem: "max_loop key best xs \<in> set (best # xs)"
  by (induction xs arbitrary: best) auto

lemma max_loop_ge_best: "key best \<le> key (max_loop key best xs)"
proof (induction xs arbitrary: best)
  case Nil
  show ?case by simp
next
  case (Cons x xs)
  show ?case using Cons [of "if key best < key x then x else best"]
    by (simp split: if_splits)
qed

lemma max_loop_ge: "x \<in> set (best # xs) \<Longrightarrow> key x \<le> key (max_loop key best xs)"
proof (induction xs arbitrary: best)
  case Nil
  then show ?case by simp
next
  case (Cons y ys)
  let ?b = "if key best < key y then y else best"
  have b: "key best \<le> key ?b" "key y \<le> key ?b" by auto
  from Cons.prems consider "x = best" | "x = y" | "x \<in> set ys" by auto
  then show ?case
  proof cases
    case 1
    with b(1) max_loop_ge_best [of key ?b ys] show ?thesis by simp
  next
    case 2
    with b(2) max_loop_ge_best [of key ?b ys] show ?thesis by simp
  next
    case 3
    with Cons.IH [of ?b] show ?thesis by simp
  qed
qed

lemma py_max_largest:
  assumes "xs \<noteq> []"
  shows "\<exists>m. py_max key xs = Inr m \<and> m \<in> set xs \<and> (\<forall>x\<in>set xs. key x \<le> key m)"
proof (cases xs)
  case Nil
  with assms show ?thesis by simp
next
  case (Cons x rest)
  then show ?thesis
    using max_loop_mem [of key x rest] max_loop_ge [of _ x rest key]
    by (simp add: py_max_def)
qed

lemma max_loop_split:
  assumes "\<forall>x\<in>set pre. key x < key best" "\<forall>x\<in>set mid. key x \<le> key best"
  shows "\<exists>before after.
           pre @ best # mid @ xs = before @ max_loop key best xs # after
           \<and> (\<forall>x\<in>set before. key x < key (max_loop key best xs))
           \<and> (\<forall>x\<in>set after. key x \<le> key (max_loop key best xs))"
  using assms
proof (induction xs arbitrary: pre best mid)
  case Nil
  then show ?case by auto
next
  case (Cons x xs)
  show ?case
  proof (cases "key best < key x")
    case True
    have "\<forall>y\<in>set (pre @ best # mid). key y < key x"
      using Cons.prems True by fastforce
    from Cons.IH [of "pre @ best # mid" x "[]", OF this] True show ?thesis by simp
  next
    case False
    have "\<forall>y\<in>set (mid @ [x]). key y \<le> key best"
      using Cons.prems(2) False by auto
    from Cons.IH [of pre best "mid @ [x]", OF Cons.prems(1) this] False show ?thesis by simp
  qed
qed

lemma py_max_first_largest:
  assumes "xs \<noteq> []"
  shows "\<exists>before m after.
           py_max key xs = Inr m \<and> xs = before @ m # after
           \<and> (\<forall>x\<in>set before. key x < key m) \<and> (\<forall>x\<in>set after. key x \<le> key m)"
proof (cases xs)
  case Nil
  with assms show ?thesis by simp
next
  case (Cons x rest)
  from max_loop_split [of "[]" key x "[]" rest] obtain before after where
    s: "x # rest = before @ max_loop key x rest # after"
    "\<forall>y\<in>set before. key y < key (max_loop key x rest)"
    "\<forall>y\<in>set after. key y \<le> key (max_loop key x rest)"
    by auto
  have "py_max key xs = Inr (max_loop key x rest)" by (simp add: py_max_def Cons)
  with s Cons show ?thesis by blast
qed

text \<open>
  C8. For a MultiPolygon with at least one member, \<open>max\<close> picks the first member of
  largest area (every member before it has a smaller area, none after it a larger one),
  and \<open>check_orientation_stats\<close> counts the MultiPolygon as ccw exactly when the
  exterior ring of that member is counterclockwise, as cw otherwise; the winding of the
  other members plays no part.
\<close>

theorem multipolygon_classified_by_largest:
  "geoms \<noteq> [] \<Longrightarrow>
   \<exists>before largest_poly after.
      geoms = before @ largest_poly # after
      \<and> (\<forall>p\<in>set before. area p < area largest_poly)
      \<and> (\<forall>p\<in>set after. area p \<le> area largest_poly)
      \<and> check_orientation_stats [Some (MultiPolygon geoms)] =
          Inr (if is_ccw (exterior largest_poly) then \<lparr>ccw = 1, cw = 0, other = 0\<rparr>
               else \<lparr>ccw = 0, cw = 1, other = 0\<rparr>)"
proof -
  assume "geoms \<noteq> []"
  from py_max_first_largest [OF this, of area] obtain before m after where
    m: "py_max area geoms = Inr m" "geoms = before @ m # after"
      "\<forall>p\<in>set before. area p < area m" "\<forall>p\<in>set after. area p \<le> area m"
    by blast
  have "check_orientation_stats [Some (MultiPolygon geoms)] =
          Inr (if is_ccw (exterior m) then \<lparr>ccw = 1, cw = 0, other = 0\<rparr>
               else \<lparr>ccw = 0, cw = 1, other = 0\<rparr>)"
    using m(1) by (simp add: check_orientation_stats_def)
  with m(2-4) show ?thesis by blast
qed

text \<open>
  Witness for C8: a counterclockwise square of area 4 with a clockwise square of area 1.
\<close>

theorem multipolygon_classified_by_largest_witness:
  "[Poly [XY 0 0, XY 2 0, XY 2 2, XY 0 2, XY 0 0] [], Poly [XY 5 5, XY 5 6, XY 6 6, XY 6 5, XY 5 5] []] \<noteq> []
   \<and> check_orientation_stats [Some (MultiPolygon
        [Poly [XY 0 0, XY 2 0, XY 2 2, XY 0 2, XY 0 0] [], Poly [XY 5 5, XY 5 6, XY 6 6, XY 6 5, XY 5 5] []])]
      = Inr \<lparr>ccw = 1, cw = 0, other = 0\<rparr>"
proof -
  let ?big = "Poly [XY 0 0, XY 2 0, XY 2 2, XY 0 2, XY 0 0] []"
  let ?small = "Poly [XY 5 5, XY 5 6, XY 6 6, XY 6 5, XY 5 5] []"
  have ne: "[?big, ?small] \<noteq> []" by simp
  have a: "area ?big = 4" "area ?small = 1" by (simp_all add: area_def)
  from multipolygon_classified_by_largest [OF ne] obtain before m after where m: "[?big, ?small] = before @ m # after"
    "\<forall>p\<in>set before. area p < area m" "\<forall>p\<in>set after. area p \<le> area m"
    and s: "check_orientation_stats [Some (MultiPolygon [?big, ?small])] =
          Inr (if is_ccw (exterior m) then \<lparr>ccw = 1, cw = 0, other = 0\<rparr>
               else \<lparr>ccw = 0, cw = 1, other = 0\<rparr>)"
    by blast
  have "m = ?big"
  proof (cases before)
    case Nil
    with m(1) show ?thesis by simp
  next
    case (Cons b bs)
    with m(1) have "b = ?big" by simp
    show ?thesis
    proof (cases bs)
      case Nil
      with Cons m(1) have "m = ?small" by simp
      with m(2) Cons \<open>b = ?big\<close> a show ?thesis by simp
    next
      case (Cons c cs)
      with \<open>before = b # bs\<close> m(1) show ?thesis by simp
    qed
  qed
  moreover have "is_ccw (exterior ?big)" by (simp add: is_ccw_def signed_area_def)
  ultimately show ?thesis using s ne by simp
qed

subsection \<open>The three counts\<close>

lemma stats_step_polygonal:
  "auditable geom \<Longrightarrow>
   \<exists>s'. stats_step s geom = Inr s'
      \<and> ccw s' + cw s' + other s' = ccw s + cw s + other s + 1
      \<and> other s' = other s + (if polygonal geom then 0 else 1)"
proof (induction s geom rule: stats_step.induct)
  case (2 s geoms)
  then have "geoms \<noteq> []" by (auto simp: auditable_def)
  from py_max_largest [OF this, of area] obtain m where "py_max area geoms = Inr m" by blast
  then show ?case by simp
qed simp_all

lemma stats_loop_total:
  "list_all auditable gdf \<Longrightarrow>
   \<exists>s'. stats_loop s gdf = Inr s'
      \<and> ccw s' + cw s' + other s' = ccw s + cw s + other s + length gdf
      \<and> other s' = other s + length (filter (\<lambda>geom. \<not> polygonal geom) gdf)"
proof (induction gdf arbitrary: s)
  case Nil
  then show ?case by simp
next
  case (Cons geom rest)
  then have "auditable geom" and rest: "list_all auditable rest" by simp_all
  from stats_step_polygonal [OF this(1), of s] obtain s1 where
    s1: "stats_step s geom = Inr s1"
      "ccw s1 + cw s1 + other s1 = ccw s + cw s + other s + 1"
      "other s1 = other s + (if polygonal geom then 0 else 1)"
    by blast
  from Cons.IH [OF rest, of s1] obtain s' where
    s': "stats_loop s1 rest = Inr s'"
      "ccw s' + cw s' + other s' = ccw s1 + cw s1 + other s1 + length rest"
      "other s' = other s1 + length (filter (\<lambda>geom. \<not> polygonal geom) rest)"
    by blast
  from s1 s' show ?case by simp
qed

text \<open>
  C10. For a collection whose geometries are \<open>None\<close>, non-polygonal, or non-empty
  Polygons and MultiPolygons, \<open>check_orientation_stats\<close> returns counts that sum to the
  number of records, and \<open>other\<close> counts exactly the records that are neither a
  Polygon nor a MultiPolygon, among them \<open>None\<close>.
\<close>

theorem orientation_stats_total_count:
  "list_all auditable gdf \<Longrightarrow>
   \<exists>s. check_orientation_stats gdf = Inr s
      \<and> ccw s + cw s + other s = length gdf
      \<and> other s = length (filter (\<lambda>geom. \<not> polygonal geom) gdf)
      \<and> \<not> polygonal None"
  using stats_loop_total [of gdf "\<lparr>ccw = 0, cw = 0, other = 0\<rparr>"]
  by (simp add: check_orientation_stats_def)

text \<open>
  Witness for C10: a \<open>None\<close>, a Point and a clockwise Polygon.
\<close>

theorem orientation_stats_total_count_witness:
  "list_all auditable [None, Some (Point (Some (XY 1 2))), Some (Polygon (Poly [XY 0 0, XY 0 1, XY 1 1, XY 1 0, XY 0 0] []))]
   \<and> check_orientation_stats [None, Some (Point (Some (XY 1 2))), Some (Polygon (Poly [XY 0 0, XY 0 1, XY 1 1, XY 1 0, XY 0 0] []))]
       = Inr \<lparr>ccw = 0, cw = 1, other = 2\<rparr>"
proof -
  let ?gdf = "[None, Some (Point (Some (XY 1 2))), Some (Polygon (Poly [XY 0 0, XY 0 1, XY 1 1, XY 1 0, XY 0 0] []))]"
  have h: "list_all auditable ?gdf" by (simp add: auditable_def polygon_is_empty_def)
  from orientation_stats_total_count [OF h] obtain s where "check_orientation_stats ?gdf = Inr s" by blast
  moreover have "check_orientation_stats ?gdf = Inr \<lparr>ccw = 0, cw = 1, other = 2\<rparr>"
    by (simp add: check_orientation_stats_def is_ccw_def signed_area_def)
  ultimately show ?thesis using h by simp
qed

subsection \<open>Orientation after the fix\<close>

lemma shoelace_snoc:
  "shoelace (r @ [p]) = shoelace r + (if r = [] then 0 else cx (last r) * cy p - cx p * cy (last r))"
  by (induction r rule: shoelace.induct) simp_all

lemma shoelace_rev: "shoelace (rev r) = - shoelace r"
proof (induction r rule: shoelace.induct)
  case (1 p q ps)
  have "shoelace (rev (p # q # ps)) = shoelace (rev (q # ps) @ [p])" by simp
  also have "\<dots> = shoelace (rev (q # ps)) + (cx q * cy p - cx p * cy q)"
    by (simp only: shoelace_snoc) simp
  finally show ?case using 1 by simp
qed simp_all

lemma signed_area_rev:
  "signed_area r = Inr a \<Longrightarrow> signed_area (rev r) = Inr (- a)"
  by (auto simp: signed_area_def shoelace_rev split: if_splits)

lemma map_result_defined:
  "list_all (\<lambda>x. \<not> isl (f x)) xs \<Longrightarrow> \<exists>ys. map_result f xs = Inr ys"
proof (induction xs)
  case Nil
  show ?case by simp
next
  case (Cons x xs)
  then obtain y ys where "f x = Inr y" "map_result f xs = Inr ys"
    by (cases "f x") auto
  then show ?case by simp
qed

lemma orient_hole_defined: "\<not> isl (signed_area h) \<Longrightarrow> \<not> isl (orient_hole h)"
  by (cases "signed_area h") (simp_all add: orient_hole_def)

lemma orient_nondegenerate:
  assumes "nondegenerate p"
  shows "\<exists>p'. orient p = Inr p' \<and> is_ccw (exterior p')"
proof (cases p)
  case (Poly ring holes)
  with assms obtain a where a: "signed_area ring = Inr a" "a \<noteq> 0"
    and h: "list_all (\<lambda>h. \<not> isl (signed_area h)) holes"
    by (auto simp: nondegenerate_def split: sum.splits)
  from h have "list_all (\<lambda>h. \<not> isl (orient_hole h)) holes"
    by (induction holes) (simp_all add: orient_hole_defined)
  from map_result_defined [OF this] obtain holes' where
    holes': "map_result orient_hole holes = Inr holes'" by blast
  have "is_ccw (if 0 \<le> a then ring else rev ring)"
    using a signed_area_rev [OF a(1)] by (simp add: is_ccw_def)
  with Poly a holes' show ?thesis by simp
qed

lemma map_orient_nondegenerate:
  "list_all nondegenerate ps \<Longrightarrow>
   \<exists>ps'. map_result orient ps = Inr ps' \<and> length ps' = length ps
        \<and> list_all (\<lambda>p. is_ccw (exterior p)) ps'"
proof (induction ps)
  case Nil
  show ?case by simp
next
  case (Cons p ps)
  then obtain p' ps' where "orient p = Inr p'" "is_ccw (exterior p')"
    "map_result orient ps = Inr ps'" "length ps' = length ps"
    "list_all (\<lambda>p. is_ccw (exterior p)) ps'"
    using orient_nondegenerate [of p] by auto
  then show ?case by simp
qed

lemma nondegenerate_not_empty: "nondegenerate p \<Longrightarrow> \<not> polygon_is_empty p"
  by (auto simp: nondegenerate_def polygon_is_empty_def signed_area_def)

lemma stats_all_ccw:
  assumes "ps \<noteq> []" "list_all (\<lambda>p. is_ccw (exterior p)) ps"
  shows "check_orientation_stats [Some (MultiPolygon ps)] = Inr \<lparr>ccw = 1, cw = 0, other = 0\<rparr>"
proof -
  from py_max_largest [OF assms(1), of area] obtain m where
    m: "py_max area ps = Inr m" "m \<in> set ps" by blast
  with assms(2) have "is_ccw (exterior m)" by (simp add: list_all_iff)
  with m show ?thesis by (simp add: check_orientation_stats_def)
qed

text \<open>
  C4. Let \<open>g\<close> be a Polygon, or a MultiPolygon with at least one member, in which every
  exterior ring has a defined, non-zero signed area (and every hole a defined one). Then
  \<open>fix_cw_to_ccw\<close> returns a geometry of the same type and member count in which the
  exterior ring of every member is counterclockwise, and \<open>check_orientation_stats\<close>
  counts it as ccw.
\<close>

theorem fix_then_classify_ccw:
  assumes "polygons_of g \<noteq> []" and "list_all nondegenerate (polygons_of g)"
  shows "\<exists>g'. fst (fix_cw_to_ccw (Some g)) = Some g'
           \<and> geom_type g' = geom_type g
           \<and> length (polygons_of g') = length (polygons_of g)
           \<and> list_all (\<lambda>p. is_ccw (exterior p)) (polygons_of g')
           \<and> check_orientation_stats [Some g'] = Inr \<lparr>ccw = 1, cw = 0, other = 0\<rparr>"
proof (cases g)
  case (Polygon p)
  with assms have nd: "nondegenerate p" by simp
  from orient_nondegenerate [OF nd] obtain p' where
    p': "orient p = Inr p'" "is_ccw (exterior p')" by blast
  with Polygon nondegenerate_not_empty [OF nd] show ?thesis
    by (simp add: fix_cw_to_ccw_def fix_cw_to_ccw_try_def check_orientation_stats_def)
next
  case (MultiPolygon ps)
  with assms have ne: "ps \<noteq> []" and nd: "list_all nondegenerate ps" by simp_all
  from map_orient_nondegenerate [OF nd] obtain ps' where
    ps': "map_result orient ps = Inr ps'" "length ps' = length ps"
      "list_all (\<lambda>p. is_ccw (exterior p)) ps'" by blast
  from ne ps'(2) have ne': "ps' \<noteq> []" by auto
  from ne nd have "\<not> list_all polygon_is_empty ps"
    by (cases ps) (simp_all add: nondegenerate_not_empty)
  with MultiPolygon ps' stats_all_ccw [OF ne' ps'(3)] show ?thesis
    by (simp add: fix_cw_to_ccw_def fix_cw_to_ccw_try_def)
qed (use assms in simp_all)

text \<open>
  Witness for C4: a MultiPolygon whose second member is clockwise.
\<close>

theorem fix_then_classify_ccw_witness:
  "polygons_of (MultiPolygon [Poly [XY 0 0, XY 2 0, XY 2 2, XY 0 2, XY 0 0] [],
                              Poly [XY 5 5, XY 5 6, XY 6 6, XY 6 5, XY 5 5] []]) \<noteq> []
   \<and> list_all nondegenerate (polygons_of (MultiPolygon [Poly [XY 0 0, XY 2 0, XY 2 2, XY 0 2, XY 0 0] [],
                              Poly [XY 5 5, XY 5 6, XY 6 6, XY 6 5, XY 5 5] []]))
   \<and> fst (fix_cw_to_ccw (Some (MultiPolygon [Poly [XY 0 0, XY 2 0, XY 2 2, XY 0 2, XY 0 0] [],
                              Poly [XY 5 5, XY 5 6, XY 6 6, XY 6 5, XY 5 5] []])))
       = Some (MultiPolygon [Poly [XY 0 0, XY 2 0, XY 2 2, XY 0 2, XY 0 0] [],
                              Poly [XY 5 5, XY 6 5, XY 6 6, XY 5 6, XY 5 5] []])
   \<and> check_orientation_stats [fst (fix_cw_to_ccw (Some (MultiPolygon [Poly [XY 0 0, XY 2 0, XY 2 2, XY 0 2, XY 0 0] [],
                              Poly [XY 5 5, XY 5 6, XY 6 6, XY 6 5, XY 5 5] []])))]
       = Inr \<lparr>ccw = 1, cw = 0, other = 0\<rparr>"
proof -
  let ?g = "MultiPolygon [Poly [XY 0 0, XY 2 0, XY 2 2, XY 0 2, XY 0 0] [],
                              Poly [XY 5 5, XY 5 6, XY 6 6, XY 6 5, XY 5 5] []]"
  have h1: "polygons_of ?g \<noteq> []" by simp
  have h2: "list_all nondegenerate (polygons_of ?g)"
    by (simp add: nondegenerate_def signed_area_def)
  have e: "fst (fix_cw_to_ccw (Some ?g)) = Some (MultiPolygon [Poly [XY 0 0, XY 2 0, XY 2 2, XY 0 2, XY 0 0] [],
                              Poly [XY 5 5, XY 6 5, XY 6 6, XY 5 6, XY 5 5] []])"
    by (simp add: fix_cw_to_ccw_def fix_cw_to_ccw_try_def polygon_is_empty_def signed_area_def)
  from fix_then_classify_ccw [OF h1 h2] obtain g' where "fst (fix_cw_to_ccw (Some ?g)) = Some g'"
    "check_orientation_stats [Some g'] = Inr \<lparr>ccw = 1, cw = 0, other = 0\<rparr>" by blast
  with h1 h2 e show ?thesis by simp
qed

subsection \<open>Rounding twice\<close>

text \<open>
  Rounding to the nearest integer, to the nearest decimal with \<open>p\<close> fractional digits
  and to the nearest double: the error of each, and the value it must return when a
  candidate is close enough.
\<close>

lemma rhe_cases:
  "round_half_even q = \<lfloor>q\<rfloor> \<or> round_half_even q = \<lfloor>q\<rfloor> + 1"
  by (simp add: round_half_even_def Let_def)

lemma rhe_bound: "\<bar>of_int (round_half_even q) - q\<bar> \<le> 1 / 2"
proof -
  have "of_int \<lfloor>q\<rfloor> \<le> q" "q < of_int \<lfloor>q\<rfloor> + 1" by linarith+
  then show ?thesis
    by (auto simp: round_half_even_def Let_def abs_le_iff)
qed

lemma rhe_unique:
  assumes "\<bar>of_int n - q\<bar> < 1 / 2"
  shows "round_half_even q = n"
proof -
  have "\<bar>of_int (round_half_even q) - q\<bar> \<le> 1 / 2" by (rule rhe_bound)
  with assms have "\<bar>(of_int (round_half_even q) :: rat) - of_int n\<bar> < 1" by linarith
  then have "\<bar>round_half_even q - n\<bar> < 1"
    by (metis of_int_diff of_int_abs of_int_less_1_iff)
  then show ?thesis by linarith
qed

lemma rhe_nearest: "\<bar>of_int (round_half_even q) - q\<bar> \<le> \<bar>of_int n - q\<bar>"
proof (cases "\<bar>of_int n - q\<bar> < 1 / 2")
  case True
  then show ?thesis by (simp add: rhe_unique)
next
  case False
  with rhe_bound [of q] show ?thesis by linarith
qed

lemma rhe_of_int [simp]: "round_half_even (of_int n) = n"
  by (rule rhe_unique) simp

lemma rhe_minus: "round_half_even (- q) = - round_half_even q"
proof (cases "\<bar>of_int (round_half_even q) - q\<bar> < 1 / 2")
  case True
  then have "\<bar>of_int (- round_half_even q) - (- q)\<bar> < 1 / 2" by (simp add: abs_if split: if_splits)
  then show ?thesis by (rule rhe_unique)
next
  case False
  with rhe_bound [of q] have h: "\<bar>of_int (round_half_even q) - q\<bar> = 1 / 2" by linarith
  have fl: "of_int \<lfloor>q\<rfloor> \<le> q" "q < of_int \<lfloor>q\<rfloor> + 1" by linarith+
  have q: "q = of_int \<lfloor>q\<rfloor> + 1 / 2"
  proof (rule disjE [OF rhe_cases [of q]])
    assume "round_half_even q = \<lfloor>q\<rfloor>"
    with h fl show ?thesis by linarith
  next
    assume "round_half_even q = \<lfloor>q\<rfloor> + 1"
    with h have "\<bar>of_int \<lfloor>q\<rfloor> + 1 - q\<bar> = 1 / 2" by simp
    with fl show ?thesis by linarith
  qed
  have "- q = of_int (- \<lfloor>q\<rfloor> - 1) + 1 / 2" by (subst q) simp
  then have f': "\<lfloor>- q\<rfloor> = - \<lfloor>q\<rfloor> - 1" by linarith
  have r: "- q - of_int \<lfloor>- q\<rfloor> = 1 / 2" "q - of_int \<lfloor>q\<rfloor> = 1 / 2"
    using q f' by simp_all
  show ?thesis
    unfolding round_half_even_def Let_def r by (simp add: f')
qed

lemma ff_minus: "format_fixed p (- x) = - format_fixed p x"
  by (simp add: format_fixed_def rhe_minus)

lemma scaled_abs:
  fixes a x c :: rat
  assumes "0 < c"
  shows "\<bar>a / c - x\<bar> = \<bar>a - x * c\<bar> / c"
proof -
  have "a / c - x = (a - x * c) / c" using assms by (simp add: field_simps)
  then show ?thesis using assms by (simp add: abs_divide)
qed

lemma div_bound_le:
  fixes a c :: rat
  shows "0 < c \<Longrightarrow> a \<le> 1 / 2 \<Longrightarrow> a / c \<le> 1 / (2 * c)"
  by (simp add: field_simps)

lemma div_bound_less:
  fixes a c :: rat
  shows "0 < c \<Longrightarrow> a / c < 1 / (2 * c) \<Longrightarrow> a < 1 / 2"
  by (simp add: field_simps)

lemma ff_nearest: "\<bar>format_fixed p x - x\<bar> \<le> \<bar>of_int n / 10 ^ p - x\<bar>"
proof -
  have c: "(0::rat) < 10 ^ p" by simp
  have "\<bar>of_int (round_half_even (x * 10 ^ p)) - x * 10 ^ p\<bar> \<le> \<bar>of_int n - x * 10 ^ p\<bar>"
    by (rule rhe_nearest)
  then show ?thesis
    unfolding format_fixed_def scaled_abs [OF c] using c by (simp add: divide_right_mono)
qed

lemma ff_bound: "\<bar>format_fixed p x - x\<bar> \<le> 1 / (2 * 10 ^ p)"
proof -
  have c: "(0::rat) < 10 ^ p" by simp
  have "\<bar>of_int (round_half_even (x * 10 ^ p)) - x * 10 ^ p\<bar> \<le> 1 / 2"
    by (rule rhe_bound)
  then have "\<bar>of_int (round_half_even (x * 10 ^ p)) - x * 10 ^ p\<bar> / 10 ^ p \<le> 1 / (2 * 10 ^ p)"
    by (rule div_bound_le [OF c])
  then show ?thesis
    unfolding format_fixed_def scaled_abs [OF c] .
qed

lemma ff_unique:
  assumes "\<bar>of_int n / 10 ^ p - x\<bar> < 1 / (2 * 10 ^ p)"
  shows "format_fixed p x = of_int n / 10 ^ p"
proof -
  have c: "(0::rat) < 10 ^ p" by simp
  from assms have "\<bar>of_int n - x * 10 ^ p\<bar> / 10 ^ p < 1 / (2 * 10 ^ p)"
    unfolding scaled_abs [OF c] .
  then have "\<bar>of_int n - x * 10 ^ p\<bar> < 1 / 2"
    by (rule div_bound_less [OF c])
  then have "round_half_even (x * 10 ^ p) = n" by (rule rhe_unique)
  then show ?thesis by (simp add: format_fixed_def)
qed

lemma ff_of_int: "format_fixed p (of_int n) = of_int n"
proof -
  have "(of_int n :: rat) * 10 ^ p = of_int (n * 10 ^ p)" by simp
  then have "round_half_even (of_int n * 10 ^ p) = n * 10 ^ p"
    by (simp only: rhe_of_int)
  then show ?thesis by (simp add: format_fixed_def)
qed

lemma powi_nat: "0 \<le> n \<Longrightarrow> (2::rat) powi n = 2 ^ nat n"
  by (simp add: power_int_def)

lemma powi2_less_iff: "(2::rat) powi m < 2 powi n \<longleftrightarrow> m < n"
proof
  assume l: "(2::rat) powi m < 2 powi n"
  show "m < n"
  proof (rule ccontr)
    assume "\<not> m < n"
    then have "(2::rat) powi n \<le> 2 powi m" by (intro power_int_increasing) simp_all
    with l show False by simp
  qed
next
  assume "m < n"
  then show "(2::rat) powi m < 2 powi n" by (intro power_int_strict_increasing) simp_all
qed

lemma powi2_le_iff: "(2::rat) powi m \<le> 2 powi n \<longleftrightarrow> m \<le> n"
  using powi2_less_iff [of n m] by (simp add: not_less [symmetric])

lemma ilog2_bounds:
  assumes "q \<noteq> 0"
  shows "2 powi ilog2 q \<le> \<bar>q\<bar>" and "\<bar>q\<bar> < 2 powi (ilog2 q + 1)"
proof -
  define a where "a = fst (quotient_of \<bar>q\<bar>)"
  define b where "b = snd (quotient_of \<bar>q\<bar>)"
  define d where "d = bitlen a - bitlen b"
  have b: "0 < b" unfolding b_def by (rule quotient_of_denom_pos')
  have q: "\<bar>q\<bar> = of_int a / of_int b"
    unfolding a_def b_def by (rule quotient_of_div) simp
  from assms have "0 < \<bar>q\<bar>" by simp
  with q b have a: "0 < a" by (simp add: zero_less_divide_iff)
  from bitlen_bounds [OF a] have la: "2 ^ nat (bitlen a - 1) \<le> a" "a < 2 ^ nat (bitlen a)" by simp_all
  from bitlen_bounds [OF b] have lb: "2 ^ nat (bitlen b - 1) \<le> b" "b < 2 ^ nat (bitlen b)" by simp_all
  have pa: "1 \<le> bitlen a" using a by (simp add: bitlen_alt_def)
  have pb: "1 \<le> bitlen b" using b by (simp add: bitlen_alt_def)
  have ra: "(2::rat) powi (bitlen a - 1) \<le> of_int a" "(of_int a :: rat) < 2 powi bitlen a"
  proof -
    have "(of_int (2 ^ nat (bitlen a - 1)) :: rat) \<le> of_int a" using la(1) by (simp only: of_int_le_iff)
    then show "(2::rat) powi (bitlen a - 1) \<le> of_int a" using pa by (simp add: powi_nat)
    have "(of_int a :: rat) < of_int (2 ^ nat (bitlen a))" using la(2) by (simp only: of_int_less_iff)
    then show "(of_int a :: rat) < 2 powi bitlen a" using pa by (simp add: powi_nat)
  qed
  have rb: "(2::rat) powi (bitlen b - 1) \<le> of_int b" "(of_int b :: rat) < 2 powi bitlen b"
  proof -
    have "(of_int (2 ^ nat (bitlen b - 1)) :: rat) \<le> of_int b" using lb(1) by (simp only: of_int_le_iff)
    then show "(2::rat) powi (bitlen b - 1) \<le> of_int b" using pb by (simp add: powi_nat)
    have "(of_int b :: rat) < of_int (2 ^ nat (bitlen b))" using lb(2) by (simp only: of_int_less_iff)
    then show "(of_int b :: rat) < 2 powi bitlen b" using pb by (simp add: powi_nat)
  qed
  have bpos: "(0::rat) < of_int b" using b by simp
  have lower: "(2::rat) powi (d - 1) < \<bar>q\<bar>"
  proof -
    have "(2::rat) powi (d - 1) * of_int b < 2 powi (d - 1) * 2 powi bitlen b"
      using rb(2) by simp
    also have "\<dots> = 2 powi (bitlen a - 1)"
      by (simp add: d_def power_int_add [symmetric])
    also have "\<dots> \<le> of_int a" by (rule ra(1))
    finally show ?thesis using bpos by (simp add: q pos_less_divide_eq)
  qed
  have upper: "\<bar>q\<bar> < (2::rat) powi (d + 1)"
  proof -
    have "(of_int a :: rat) < 2 powi bitlen a" by (rule ra(2))
    also have "\<dots> = 2 powi (d + 1) * 2 powi (bitlen b - 1)"
      by (simp add: d_def power_int_add [symmetric])
    also have "\<dots> \<le> 2 powi (d + 1) * of_int b"
      using rb(1) by simp
    finally show ?thesis using bpos by (simp add: q pos_divide_less_eq)
  qed
  have il: "ilog2 q = (if 2 powi d \<le> \<bar>q\<bar> then d else d - 1)"
    by (simp add: ilog2_def Let_def a_def b_def d_def)
  show "2 powi ilog2 q \<le> \<bar>q\<bar>" using lower by (simp add: il)
  show "\<bar>q\<bar> < 2 powi (ilog2 q + 1)" using upper by (auto simp: il)
qed

lemma ilog2_unique:
  assumes "2 powi e \<le> \<bar>q\<bar>" "\<bar>q\<bar> < 2 powi (e + 1)"
  shows "ilog2 q = e"
proof -
  from assms(1) have "q \<noteq> 0"
    using zero_less_power_int [of "2::rat" e] by (auto simp del: zero_less_power_int)
  note b = ilog2_bounds [OF this]
  from b(1) assms(2) have "(2::rat) powi ilog2 q < 2 powi (e + 1)" by linarith
  then have 1: "ilog2 q < e + 1" by (simp only: powi2_less_iff)
  from assms(1) b(2) have "(2::rat) powi e < 2 powi (ilog2 q + 1)" by linarith
  then have 2: "e < ilog2 q + 1" by (simp only: powi2_less_iff)
  from 1 2 show ?thesis by simp
qed

lemma ilog2_minus: "ilog2 (- q) = ilog2 q"
  by (simp add: ilog2_def)

lemma float_of_rat_minus: "float_of_rat (- q) = - float_of_rat q"
  by (simp add: float_of_rat_def float_quantum_def ilog2_minus rhe_minus)

lemma float_of_rat_eq:
  "q \<noteq> 0 \<Longrightarrow>
   float_of_rat q = of_int (round_half_even (q / 2 powi float_quantum q)) * 2 powi float_quantum q"
  by (simp add: float_of_rat_def)

lemma scaled_abs_mult:
  fixes a x c :: rat
  assumes "0 < c"
  shows "\<bar>a * c - x\<bar> = \<bar>a - x / c\<bar> * c"
proof -
  have "a * c - x = (a - x / c) * c" using assms by (simp add: field_simps)
  then show ?thesis using assms by (simp add: abs_mult)
qed

lemma float_of_rat_error:
  "\<bar>float_of_rat q - q\<bar> \<le> 2 powi float_quantum q / 2"
proof (cases "q = 0")
  case True
  then show ?thesis by (simp add: float_of_rat_def)
next
  case False
  define u :: rat where "u = 2 powi float_quantum q"
  have u: "0 < u" by (simp add: u_def)
  have "\<bar>of_int (round_half_even (q / u)) - q / u\<bar> \<le> 1 / 2" by (rule rhe_bound)
  then have "\<bar>of_int (round_half_even (q / u)) - q / u\<bar> * u \<le> (1 / 2) * u"
    using u by (intro mult_right_mono) simp_all
  then show ?thesis
    unfolding float_of_rat_eq [OF False] u_def [symmetric] scaled_abs_mult [OF u] by simp
qed

lemma float_of_rat_unique:
  assumes "q \<noteq> 0" and "\<bar>of_int m * 2 powi float_quantum q - q\<bar> < 2 powi float_quantum q / 2"
  shows "float_of_rat q = of_int m * 2 powi float_quantum q"
proof -
  define u :: rat where "u = 2 powi float_quantum q"
  have u: "0 < u" by (simp add: u_def)
  from assms(2) have "\<bar>of_int m - q / u\<bar> * u < (1 / 2) * u"
    unfolding u_def [symmetric] scaled_abs_mult [OF u] by simp
  then have "\<bar>of_int m - q / u\<bar> < 1 / 2"
    using u by (simp only: mult_less_cancel_right_pos)
  then have "round_half_even (q / u) = m" by (rule rhe_unique)
  then show ?thesis
    unfolding float_of_rat_eq [OF assms(1)] u_def [symmetric] by simp
qed

lemma float_of_rat_pow2:
  assumes "- 1022 \<le> j"
  shows "float_of_rat (2 powi j) = 2 powi j"
proof -
  have nz: "(2::rat) powi j \<noteq> 0" by simp
  have "ilog2 (2 powi j) = j"
    by (rule ilog2_unique) (simp_all add: powi2_le_iff powi2_less_iff)
  with assms have fq: "float_quantum (2 powi j) = j - 52"
    by (simp add: float_quantum_def)
  have s: "(2::rat) powi j = of_int (2 ^ 52) * 2 powi (j - 52)"
  proof -
    have "(2::rat) powi (52 + (j - 52)) = 2 powi 52 * 2 powi (j - 52)"
      by (rule power_int_add) simp
    then show ?thesis by simp
  qed
  have "\<bar>of_int (2 ^ 52) * 2 powi float_quantum (2 powi j) - 2 powi j\<bar>
          < (2::rat) powi float_quantum (2 powi j) / 2"
    unfolding fq using s by simp
  from float_of_rat_unique [OF nz this] show ?thesis
    unfolding fq using s by simp
qed

lemma coprime_5_2: "coprime (5::nat) 2"
  by (simp add: coprime_iff_gcd_eq_1 gcd_nat.simps [of 5 2] gcd_nat.simps [of 2 1])

lemma five_not_dvd_pow2: "\<not> (5::nat) dvd 2 ^ n"
proof
  assume d: "(5::nat) dvd 2 ^ n"
  have c: "coprime (5::nat) (2 ^ n)" using coprime_5_2 by simp
  from c have "is_unit (5::nat)" unfolding coprime_absorb_left [OF d] .
  then show False by simp
qed

lemma pow2_ne_pow10:
  assumes "1 \<le> p"
  shows "(2::rat) powi k \<noteq> 1 / 10 ^ p"
proof (cases "0 \<le> k")
  case True
  then have "(1::rat) \<le> 2 powi k" by simp
  moreover have "(1::rat) / 10 ^ p < 1" using assms by (simp add: one_less_power)
  ultimately show ?thesis by linarith
next
  case False
  define n where "n = nat (- k)"
  from False have k: "k = - int n" by (simp add: n_def)
  show ?thesis
  proof
    assume "(2::rat) powi k = 1 / 10 ^ p"
    then have "(1::rat) / 2 ^ n = 1 / 10 ^ p"
      by (simp add: k power_int_minus_divide)
    then have "(2::rat) ^ n = 10 ^ p" by (simp add: field_simps)
    then have "(of_nat (2 ^ n) :: rat) = of_nat (10 ^ p)" by simp
    then have e: "(2::nat) ^ n = 10 ^ p" by (simp only: of_nat_eq_iff)
    from assms have "(5::nat) dvd 10 ^ p" by (cases p) simp_all
    with e have "(5::nat) dvd 2 ^ n" by simp
    then show False by (simp add: five_not_dvd_pow2)
  qed
qed

lemma pow10_gt_pow2:
  assumes "p \<le> 15" and "1 / 10 ^ p < (2::rat) powi k"
  shows "- 49 \<le> k"
proof (rule ccontr)
  assume "\<not> - 49 \<le> k"
  then have "k \<le> - 50" by simp
  then have "(2::rat) powi k \<le> 2 powi (- 50)" by (simp only: powi2_le_iff)
  also have "\<dots> < 1 / 10 ^ 15" by (simp add: power_int_minus_divide)
  also have "\<dots> \<le> 1 / 10 ^ p"
    using assms(1) by (intro divide_left_mono power_increasing) simp_all
  finally show False using assms(2) by simp
qed

text \<open>
  The heart of the idempotence. Let \<open>q\<close> be a decimal with \<open>p\<close> fractional digits,
  \<open>1 \<le> p \<le> 15\<close>, and \<open>d\<close> the double nearest to it. Where doubles are spaced more
  finely than \<open>10\<^sup>-\<^sup>p\<close>, formatting \<open>d\<close> gives \<open>q\<close> back. Where they are spaced more
  coarsely, \<open>d\<close> is at least 8, the powers of two around it are integers, and the
  decimal nearest to \<open>d\<close> is closer to \<open>d\<close> than to any other double. The two spacings
  are never equal.
\<close>

lemma rounded_fixpoint_pos:
  assumes p: "1 \<le> p" "p \<le> 15" and q: "q = of_int n / 10 ^ p" and pos: "0 < q"
  shows "float_of_rat (format_fixed p (float_of_rat q)) = float_of_rat q"
proof -
  define k where "k = float_quantum q"
  define u :: rat where "u = 2 powi k"
  define d where "d = float_of_rat q"
  define \<delta> :: rat where "\<delta> = 1 / 10 ^ p"
  have u: "0 < u" by (simp add: u_def)
  have \<delta>: "0 < \<delta>" by (simp add: \<delta>_def)
  have half: "1 / (2 * 10 ^ p) = \<delta> / 2" by (simp add: \<delta>_def)
  have err: "\<bar>d - q\<bar> \<le> u / 2"
    unfolding d_def u_def k_def by (rule float_of_rat_error)
  have "u \<noteq> \<delta>" unfolding u_def \<delta>_def by (rule pow2_ne_pow10 [OF p(1)])
  then consider (small) "u < \<delta>" | (large) "\<delta> < u" by linarith
  then show ?thesis
  proof cases
    case small
    with err have "\<bar>of_int n / 10 ^ p - d\<bar> < 1 / (2 * 10 ^ p)"
      unfolding half q [symmetric] by linarith
    then have "format_fixed p d = of_int n / 10 ^ p" by (rule ff_unique)
    then show ?thesis by (simp add: d_def q)
  next
    case large
    then have k49: "- 49 \<le> k" unfolding u_def \<delta>_def by (rule pow10_gt_pow2 [OF p(2)])
    define e where "e = ilog2 q"
    from k49 have ke: "k = e - 52" by (simp add: k_def float_quantum_def e_def)
    with k49 have e3: "3 \<le> e" by simp
    from pos have nz: "q \<noteq> 0" by simp
    from ilog2_bounds [OF nz] pos have lo: "2 powi e \<le> q" and hi: "q < 2 powi (e + 1)"
      by (simp_all add: e_def)
    define m where "m = round_half_even (q / u)"
    have d: "d = of_int m * u"
      unfolding d_def m_def u_def k_def by (rule float_of_rat_eq [OF nz])
    have pe: "(2::rat) powi e = 2 ^ 52 * u"
    proof -
      have "(2::rat) powi (52 + k) = 2 powi 52 * 2 powi k" by (rule power_int_add) simp
      then show ?thesis by (simp add: ke u_def)
    qed
    have pe1: "(2::rat) powi (e + 1) = 2 ^ 53 * u"
    proof -
      have "(2::rat) powi (53 + k) = 2 powi 53 * 2 powi k" by (rule power_int_add) simp
      moreover have "53 + k = e + 1" by (simp add: ke)
      ultimately show ?thesis by (simp add: u_def)
    qed
    have qu: "2 ^ 52 \<le> q / u" "q / u < 2 ^ 53"
      using lo hi u unfolding pe pe1 by (simp_all add: pos_le_divide_eq pos_divide_less_eq)
    have m_lo: "2 ^ 52 \<le> m"
    proof (rule ccontr)
      assume "\<not> 2 ^ 52 \<le> m"
      then have "m \<le> 2 ^ 52 - 1" by simp
      then have "(of_int m :: rat) \<le> of_int (2 ^ 52 - 1)" by (simp only: of_int_le_iff)
      then have 1: "(of_int m :: rat) \<le> 2 ^ 52 - 1" by simp
      have "\<bar>of_int m - q / u\<bar> \<le> \<bar>of_int (2 ^ 52) - q / u\<bar>"
        unfolding m_def by (rule rhe_nearest)
      then have "\<bar>of_int m - q / u\<bar> \<le> \<bar>2 ^ 52 - q / u\<bar>" by simp
      with 1 qu(1) show False by linarith
    qed
    have m_hi: "m \<le> 2 ^ 53"
    proof (rule ccontr)
      assume "\<not> m \<le> 2 ^ 53"
      then have "2 ^ 53 + 1 \<le> m" by simp
      then have "(of_int (2 ^ 53 + 1) :: rat) \<le> of_int m" by (simp only: of_int_le_iff)
      then have 1: "(2 ^ 53 + 1 :: rat) \<le> of_int m" by simp
      have "\<bar>of_int m - q / u\<bar> \<le> \<bar>of_int (2 ^ 53) - q / u\<bar>"
        unfolding m_def by (rule rhe_nearest)
      then have "\<bar>of_int m - q / u\<bar> \<le> \<bar>2 ^ 53 - q / u\<bar>" by simp
      with 1 qu(2) show False by linarith
    qed
    have d_lo: "2 powi e \<le> d"
    proof -
      have "(of_int (2 ^ 52) :: rat) \<le> of_int m" using m_lo by (simp only: of_int_le_iff)
      then have "(2 ^ 52 :: rat) * u \<le> of_int m * u" using u by (intro mult_right_mono) simp_all
      then show ?thesis by (simp only: pe d)
    qed
    have d_hi: "d \<le> 2 powi (e + 1)"
    proof -
      have "(of_int m :: rat) \<le> of_int (2 ^ 53)" using m_hi by (simp only: of_int_le_iff)
      then have "of_int m * u \<le> (2 ^ 53 :: rat) * u" using u by (intro mult_right_mono) simp_all
      then show ?thesis by (simp only: pe1 d)
    qed
    have int_e: "(2::rat) powi e = of_int (2 ^ nat e * 10 ^ p) / 10 ^ p"
      using e3 by (simp add: powi_nat)
    have int_e1: "(2::rat) powi (e + 1) = of_int (2 ^ nat (e + 1) * 10 ^ p) / 10 ^ p"
      using e3 by (simp add: powi_nat)
    define q' where "q' = format_fixed p d"
    have q'_lo: "2 powi e \<le> q'"
    proof -
      have "\<bar>q' - d\<bar> \<le> \<bar>2 powi e - d\<bar>"
        unfolding q'_def int_e by (rule ff_nearest)
      with d_lo show ?thesis by linarith
    qed
    have q'_hi: "q' \<le> 2 powi (e + 1)"
    proof -
      have "\<bar>q' - d\<bar> \<le> \<bar>2 powi (e + 1) - d\<bar>"
        unfolding q'_def int_e1 by (rule ff_nearest)
      with d_hi show ?thesis by linarith
    qed
    have "\<bar>q' - d\<bar> \<le> 1 / (2 * 10 ^ p)" unfolding q'_def by (rule ff_bound)
    with large have errq: "\<bar>q' - d\<bar> < u / 2" unfolding half by linarith
    have q'pos: "0 < q'"
      using q'_lo zero_less_power_int [of "2::rat" e] by (simp del: zero_less_power_int)
    show ?thesis
    proof (cases "q' < 2 powi (e + 1)")
      case True
      have "ilog2 q' = e"
        using q'_lo True q'pos by (intro ilog2_unique) simp_all
      with e3 have fq: "float_quantum q' = k" by (simp add: float_quantum_def ke)
      have "\<bar>of_int m * 2 powi float_quantum q' - q'\<bar> < 2 powi float_quantum q' / 2"
        unfolding fq u_def [symmetric] d [symmetric] using errq by linarith
      from float_of_rat_unique [OF _ this] q'pos have "float_of_rat q' = d"
        unfolding fq u_def [symmetric] d [symmetric] by simp
      then show ?thesis by (simp add: q'_def d_def)
    next
      case False
      with q'_hi have q'e: "q' = 2 powi (e + 1)" by simp
      from errq have "\<bar>(2 ^ 53 - of_int m) * u\<bar> < u / 2"
        unfolding q'e pe1 d by (simp add: algebra_simps)
      then have "\<bar>2 ^ 53 - of_int m :: rat\<bar> * u < (1 / 2) * u"
        using u by (simp add: abs_mult)
      then have a: "\<bar>2 ^ 53 - of_int m :: rat\<bar> < 1 / 2"
        using u by (simp only: mult_less_cancel_right_pos)
      have "m = 2 ^ 53"
      proof -
        have "(of_int (2 ^ 53 - m) :: rat) = 2 ^ 53 - of_int m" by simp
        with a have "(of_int (2 ^ 53 - m) :: rat) < of_int 1" by linarith
        then have "2 ^ 53 - m < 1" by (simp only: of_int_less_iff)
        with m_hi show ?thesis by simp
      qed
      then have "d = q'" by (simp add: d q'e pe1)
      moreover have "float_of_rat q' = q'"
        unfolding q'e using e3 by (intro float_of_rat_pow2) simp
      ultimately show ?thesis by (simp add: q'_def d_def)
    qed
  qed
qed

text \<open>
  Formatting does not leave an interval with integer ends; in particular the text
  written for a finite double denotes a number no larger than the largest double.
\<close>

lemma format_fixed_bounded:
  assumes "of_int lo \<le> x" "x \<le> of_int hi"
  shows "of_int lo \<le> format_fixed p x \<and> format_fixed p x \<le> of_int hi"
proof -
  have "(of_int lo :: rat) = of_int (lo * 10 ^ p) / 10 ^ p" by simp
  then have "\<bar>format_fixed p x - x\<bar> \<le> \<bar>of_int lo - x\<bar>"
    using ff_nearest [of p x "lo * 10 ^ p"] by (simp only:)
  moreover have "(of_int hi :: rat) = of_int (hi * 10 ^ p) / 10 ^ p" by simp
  then have "\<bar>format_fixed p x - x\<bar> \<le> \<bar>of_int hi - x\<bar>"
    using ff_nearest [of p x "hi * 10 ^ p"] by (simp only:)
  ultimately show ?thesis using assms by linarith
qed

lemma format_fixed_0: "format_fixed p 0 = 0"
  using ff_of_int [of p 0] by simp

lemma float_of_rat_0: "float_of_rat 0 = 0"
  by (simp add: float_of_rat_def)

lemma rounded_fixpoint:
  assumes p: "1 \<le> p" "p \<le> 15" and q: "q = of_int n / 10 ^ p"
  shows "float_of_rat (format_fixed p (float_of_rat q)) = float_of_rat q"
proof -
  consider "0 < q" | "q = 0" | "0 < - q" by linarith
  then show ?thesis
  proof cases
    case 1
    with p q show ?thesis by (rule rounded_fixpoint_pos)
  next
    case 2
    then show ?thesis by (simp add: float_of_rat_0 format_fixed_0)
  next
    case 3
    have "- q = of_int (- n) / 10 ^ p" by (simp add: q)
    from rounded_fixpoint_pos [OF p this 3] show ?thesis
      by (simp add: float_of_rat_minus ff_minus)
  qed
qed

lemma rounded_idem:
  assumes "1 \<le> precision" "precision \<le> 15"
  shows "rounded precision (rounded precision x) = rounded precision x"
proof -
  from assms have p: "1 \<le> nat precision" "nat precision \<le> 15" by simp_all
  have "format_fixed (nat precision) x
          = of_int (round_half_even (x * 10 ^ nat precision)) / 10 ^ nat precision"
    by (simp add: format_fixed_def)
  from rounded_fixpoint [OF p this] show ?thesis by (simp add: rounded_def)
qed

lemma rounded_coord_idem:
  "1 \<le> precision \<Longrightarrow> precision \<le> 15 \<Longrightarrow>
   rounded_coord precision (rounded_coord precision c) = rounded_coord precision c"
  by (cases c) (simp_all add: rounded_idem)

lemma map_polygon_idem:
  "(\<And>c. f (f c) = f c) \<Longrightarrow> map_polygon f (map_polygon f p) = map_polygon f p"
  by (cases p) simp

lemma map_geometry_idem:
  assumes "\<And>c. f (f c) = f c"
  shows "map_geometry f (map_geometry f g) = map_geometry f g"
proof (induction g)
  case (Point c)
  show ?case by (cases c) (simp_all add: assms)
next
  case (MultiPoint ps)
  have "\<And>c. map_option f (map_option f c) = map_option f c"
    by (simp add: option.map_comp comp_def assms)
  then show ?case by simp
next
  case (GeometryCollection gs)
  then show ?case by (simp cong: map_cong)
qed (simp_all add: assms map_polygon_idem)

text \<open>
  C5. For every geometry and every precision from 1 to 15, \<open>round_coordinates\<close> returns
  a geometry on which \<open>round_coordinates\<close> with the same precision returns that same
  geometry: every ordinate, formatted and reparsed once, is reproduced by formatting and
  reparsing it again.
\<close>

theorem round_coordinates_idempotent:
  assumes "1 \<le> precision" "precision \<le> 15"
  shows "\<exists>once. round_coordinates geom precision = Inr once
               \<and> round_coordinates once precision = Inr once"
proof -
  let ?f = "rounded_coord precision"
  from assms have ok: "0 \<le> precision" "precision \<le> 2147483647" by simp_all
  have "map_geometry ?f (map_geometry ?f g) = map_geometry ?f g" for g
    by (rule map_geometry_idem) (rule rounded_coord_idem [OF assms])
  then show ?thesis
    by (cases geom) (simp_all add: round_coordinates_ok [OF ok])
qed

text \<open>
  Witness for C5: the Point \<open>(106.123456789, -6.987654321)\<close> at precision 4, whose
  rounded ordinates are the doubles nearest to 106.1235 and -6.9877.
\<close>

theorem round_coordinates_idempotent_witness:
  "(1::int) \<le> 4 \<and> (4::int) \<le> 15
   \<and> round_coordinates (Some (Point (Some (XY (106123456789 / 1000000000) (- (6987654321 / 1000000000)))))) 4
       = Inr (Some (Point (Some (XY (3733888711369163 / 35184372088832)
                                    (- (1966862694761051 / 281474976710656))))))
   \<and> round_coordinates (Some (Point (Some (XY (3733888711369163 / 35184372088832)
                                    (- (1966862694761051 / 281474976710656)))))) 4
       = Inr (Some (Point (Some (XY (3733888711369163 / 35184372088832)
                                    (- (1966862694761051 / 281474976710656))))))"
proof -
  let ?g = "Some (Point (Some (XY (106123456789 / 1000000000) (- (6987654321 / 1000000000)))))"
  let ?r = "Some (Point (Some (XY (3733888711369163 / 35184372088832)
                                    (- (1966862694761051 / 281474976710656)))))"
  have e: "round_coordinates ?g 4 = Inr ?r" by code_simp
  from round_coordinates_idempotent [of 4 ?g] obtain once where
    "round_coordinates ?g 4 = Inr once" "round_coordinates once 4 = Inr once" by auto
  with e show ?thesis by simp
qed

end
